theory Spec2Isabelle
  imports Main "HOL-Library.Word" "HOL-Library.Sublist"
begin

section \<open>Startup configuration: discovery of the upstream URL (function main)\<close>

text \<open>
  Python strings are modelled as \<^typ>\<open>string\<close>. The environment lookup
  \<^verbatim>\<open>os.environ.get('GENYMOTION_WEBSOCKET_URL')\<close> is a \<^typ>\<open>string option\<close>; the
  connection file is either absent (\<^verbatim>\<open>FileNotFoundError\<close>, which main catches),
  unreadable for another reason (an exception main does not catch), or a list of lines,
  each with its line terminator as Python's file iteration yields them.
\<close>

datatype file_read = FileNotFound | FileUnreadable | FileLines "string list"

text \<open>Truthiness of \<^verbatim>\<open>websocket_url\<close>: \<^verbatim>\<open>None\<close> and the empty string are false.\<close>

fun truthy :: "string option \<Rightarrow> bool" where
  "truthy None = False"
| "truthy (Some s) = (s \<noteq> [])"

text \<open>\<^verbatim>\<open>pat in line\<close>: the pattern occurs somewhere in the line.\<close>

fun str_contains :: "string \<Rightarrow> string \<Rightarrow> bool" where
  "str_contains pat [] = (pat = [])"
| "str_contains pat (c # cs) = (prefix pat (c # cs) \<or> str_contains pat cs)"

definition line_matches :: "string \<Rightarrow> bool" where
  "line_matches line \<longleftrightarrow>
     str_contains ''GENYMOTION_ADB_URL='' line \<or> str_contains ''publicAdbUrl='' line"

text \<open>
  \<^verbatim>\<open>line.split('=', 1)[1]\<close>: the text after the first \<^verbatim>\<open>=\<close>; without any
  \<^verbatim>\<open>=\<close> the split has one element and the index raises \<^verbatim>\<open>IndexError\<close>.
\<close>

definition split_eq_snd :: "string \<Rightarrow> string option" where
  "split_eq_snd line =
     (case dropWhile (\<lambda>c. c \<noteq> CHR ''='') line of
        [] \<Rightarrow> None
      | _ # rest \<Rightarrow> Some rest)"

text \<open>
  \<^verbatim>\<open>str.strip()\<close> removes leading and trailing whitespace. A character of the model
  is a code point from 0 to 255; there Python's whitespace (\<^verbatim>\<open>str.isspace\<close>) is TAB,
  LF, VT, FF, CR, the four separators 0x1C to 0x1F, the space, the next-line character
  0x85 and the no-break space 0xA0.
\<close>

definition is_space :: "char \<Rightarrow> bool" where
  "is_space c \<longleftrightarrow>
     (let n = (of_char c :: nat)
      in (9 \<le> n \<and> n \<le> 13) \<or> (28 \<le> n \<and> n \<le> 32) \<or> n = 133 \<or> n = 160)"

definition strip_chars :: "(char \<Rightarrow> bool) \<Rightarrow> string \<Rightarrow> string" where
  "strip_chars p s = rev (dropWhile p (rev (dropWhile p s)))"

definition strip :: "string \<Rightarrow> string" where
  "strip s = strip_chars is_space s"

definition strip_quote :: "string \<Rightarrow> string" where
  "strip_quote s = strip_chars (\<lambda>c. c = CHR 0x22) s"

text \<open>The value taken from a matching line: \<^verbatim>\<open>line.split('=', 1)[1].strip().strip('"')\<close>.\<close>

definition line_value :: "string \<Rightarrow> string option" where
  "line_value line = map_option (\<lambda>v. strip_quote (strip v)) (split_eq_snd line)"

text \<open>
  The loop over the lines of the file: the first matching line assigns
  \<^verbatim>\<open>websocket_url\<close> and breaks. \<^verbatim>\<open>Inl ()\<close> is the \<^verbatim>\<open>IndexError\<close> of the
  split; \<^verbatim>\<open>Inr cur\<close> is the variable after the loop, \<^verbatim>\<open>cur\<close> being its value
  before the loop.
\<close>

fun scan_lines :: "string option \<Rightarrow> string list \<Rightarrow> unit + string option" where
  "scan_lines cur [] = Inr cur"
| "scan_lines cur (line # rest) =
     (if line_matches line then
        (case line_value line of None \<Rightarrow> Inl () | Some v \<Rightarrow> Inr (Some v))
      else scan_lines cur rest)"

text \<open>
  Lines 210 to 219 of main: the environment first, the file only when the environment
  gave nothing truthy. The second component tells whether the file was opened.
\<close>

definition discover_url :: "string option \<Rightarrow> file_read \<Rightarrow> (unit + string option) \<times> bool" where
  "discover_url env file =
     (if \<not> truthy env then
        (case file of
           FileNotFound \<Rightarrow> (Inr env, True)
         | FileUnreadable \<Rightarrow> (Inl (), True)
         | FileLines ls \<Rightarrow> (scan_lines env ls, True))
      else (Inr env, False))"

text \<open>
  What \<^verbatim>\<open>bridge.run_bridge()\<close> does as seen from main: it returns a boolean, or
  raises \<^verbatim>\<open>KeyboardInterrupt\<close>, or raises an \<^verbatim>\<open>Exception\<close> (\<open>RunFailed\<close>), or
  raises another \<^verbatim>\<open>BaseException\<close> such as \<^verbatim>\<open>asyncio.CancelledError\<close>
  (\<open>RunCancelled\<close>), which no \<^verbatim>\<open>except\<close> clause of main catches: it leaves main
  after the \<^verbatim>\<open>finally\<close> clause. Its first action is the connection to the upstream,
  so every call of it is a connection attempt.
\<close>

datatype run_result = RunReturned bool | RunInterrupted | RunFailed | RunCancelled

text \<open>
  The outcome of main: the exit code it returns (\<^verbatim>\<open>None\<close> when an exception leaves
  main), the URLs for which a bridge was created and run (the connection attempts),
  whether the file was opened, and whether the \<^verbatim>\<open>finally\<close> clause ran
  \<^verbatim>\<open>bridge.stop_bridge()\<close>.
\<close>

record main_outcome =
  exit_code :: "int option"
  connect_attempts :: "string list"
  file_opened :: bool
  bridge_stopped :: bool

definition main :: "string option \<Rightarrow> file_read \<Rightarrow> (string \<Rightarrow> run_result) \<Rightarrow> main_outcome" where
  "main env file run =
     (case discover_url env file of
        (Inl _, opened) \<Rightarrow>
          \<lparr>exit_code = None, connect_attempts = [], file_opened = opened,
           bridge_stopped = False\<rparr>
      | (Inr websocket_url, opened) \<Rightarrow>
          (case websocket_url of
             None \<Rightarrow>
               \<lparr>exit_code = Some 1, connect_attempts = [], file_opened = opened,
                bridge_stopped = False\<rparr>
           | Some url \<Rightarrow>
               if url = [] then
                 \<lparr>exit_code = Some 1, connect_attempts = [], file_opened = opened,
                  bridge_stopped = False\<rparr>
               else if prefix ''wss://'' url then
                 \<lparr>exit_code =
                    (case run url of
                       RunReturned success \<Rightarrow> Some (if success then 0 else 1)
                     | RunInterrupted \<Rightarrow> Some 0
                     | RunFailed \<Rightarrow> Some 1
                     | RunCancelled \<Rightarrow> None),
                  connect_attempts = [url], file_opened = opened, bridge_stopped = True\<rparr>
               else
                 \<lparr>exit_code = Some 1, connect_attempts = [], file_opened = opened,
                  bridge_stopped = False\<rparr>))"

section \<open>The bridge object and its environment\<close>

text \<open>
  Sockets are identified by numbers, standing for the identity of the Python socket
  objects (list membership and \<^verbatim>\<open>list.remove\<close> compare them by identity). Byte strings
  are lists of 8-bit words. A message received from the WebSocket is \<^verbatim>\<open>bytes\<close> for
  a binary frame and \<^verbatim>\<open>str\<close> for a text frame.
\<close>

type_synonym sock = nat
type_synonym bytes = "8 word list"

datatype message = Binary bytes | Text string

text \<open>
  The state is the attributes of the \<^verbatim>\<open>WebSocketADBBridge\<close> object (the first six
  fields, as \<^verbatim>\<open>__init__\<close> declares them) together with what the bridge does to
  the operating system and to the event loop:
  \<^item> \<open>released\<close>: the sockets whose descriptor has been released, in order. A socket is
    closed when it occurs there;
  \<^item> \<open>close_calls\<close>: every call of \<^verbatim>\<open>close()\<close> on a socket;
  \<^item> \<open>send_attempts\<close>: every attempt of the fan-out loop to write a message to a client;
  \<^item> \<open>written\<close>: the bytes that a client socket accepted from \<^verbatim>\<open>send\<close>;
  \<^item> \<open>upstream\<close>: the messages handed to \<^verbatim>\<open>websocket.send\<close>;
  \<^item> \<open>ws_close_tasks\<close>: the tasks created for \<^verbatim>\<open>websocket.close()\<close>;
  \<^item> \<open>spawned\<close>: the sockets for which a \<^verbatim>\<open>handle_client\<close> task has been created
    and has not started yet;
  \<^item> \<open>next_sock\<close>: the identity of the next socket object to be created.
\<close>

record state =
  websocket_url :: string
  local_port :: nat
  server_socket :: "sock option"
  websocket :: "unit option"
  running :: bool
  clients :: "sock list"
  released :: "sock list"
  close_calls :: "sock list"
  send_attempts :: "(sock \<times> message) list"
  written :: "(sock \<times> bytes) list"
  upstream :: "bytes list"
  ws_close_tasks :: nat
  spawned :: "sock list"
  next_sock :: nat

text \<open>\<^verbatim>\<open>__init__\<close>, in a process that has created no socket yet.\<close>

definition init :: "string \<Rightarrow> nat \<Rightarrow> state" where
  "init url port =
     \<lparr>websocket_url = url, local_port = port, server_socket = None, websocket = None,
      running = False, clients = [], released = [], close_calls = [], send_attempts = [],
      written = [], upstream = [], ws_close_tasks = 0, spawned = [], next_sock = 0\<rparr>"

text \<open>
  \<^verbatim>\<open>socket.close()\<close> marks the socket closed and releases its descriptor; on a socket
  that is closed already it does nothing.
\<close>

definition sock_close :: "sock \<Rightarrow> state \<Rightarrow> state" where
  "sock_close c st =
     st\<lparr>close_calls := close_calls st @ [c],
        released := (if c \<in> set (released st) then released st else released st @ [c])\<rparr>"

text \<open>
  \<^verbatim>\<open>list.remove(x)\<close> removes the first occurrence of \<^verbatim>\<open>x\<close> and raises
  \<^verbatim>\<open>ValueError\<close> (here \<open>Inl ()\<close>) when there is none.
\<close>

definition list_remove :: "'a \<Rightarrow> 'a list \<Rightarrow> unit + 'a list" where
  "list_remove x xs = (if x \<in> set xs then Inr (remove1 x xs) else Inl ())"

datatype loop_status = Exited | Blocked

section \<open>The client to upstream loop (handle\_client)\<close>

text \<open>
  One iteration of the read loop observes what \<^verbatim>\<open>client_socket.recv(8192)\<close> does:
  it times out, it raises another exception, or it returns data (empty when the peer has
  disconnected). For returned data it also observes what \<^verbatim>\<open>websocket.send(data)\<close>
  does: it succeeds, it raises a timeout, or it raises another exception. The clause
  \<^verbatim>\<open>except socket.timeout: continue\<close> encloses the send as well as the read, and
  \<^verbatim>\<open>socket.timeout\<close> is \<^verbatim>\<open>TimeoutError\<close>, so a timeout raised by the send drops
  the chunk and the loop goes on. The loop runs over the list of these observations;
  \<open>Blocked\<close> means that the observations are used up and the loop is still running,
  \<open>Exited\<close> that it has left the \<^verbatim>\<open>while\<close>.
\<close>

datatype ws_send = WsSendOk | WsSendTimeout | WsSendError

datatype client_event = ClientTimeout | ClientError | ClientData bytes ws_send

fun client_loop :: "client_event list \<Rightarrow> state \<Rightarrow> loop_status \<times> state" where
  "client_loop evs st =
     (if \<not> (running st \<and> websocket st \<noteq> None) then (Exited, st)
      else
        (case evs of
           [] \<Rightarrow> (Blocked, st)
         | ClientTimeout # rest \<Rightarrow> client_loop rest st
         | ClientError # rest \<Rightarrow> (Exited, st)
         | ClientData data sent # rest \<Rightarrow>
             if data = [] then (Exited, st)
             else
               (case sent of
                  WsSendOk \<Rightarrow> client_loop rest (st\<lparr>upstream := upstream st @ [data]\<rparr>)
                | WsSendTimeout \<Rightarrow> client_loop rest st
                | WsSendError \<Rightarrow> (Exited, st))))"

text \<open>
  The \<^verbatim>\<open>finally\<close> clause of handle\_client. The close comes first; when it raises,
  the bare \<^verbatim>\<open>except\<close> swallows the exception and the removal is skipped (the
  descriptor is given up all the same). A close of a socket that is closed already does
  nothing and so cannot raise.
\<close>

definition handle_client_finally :: "bool \<Rightarrow> sock \<Rightarrow> state \<Rightarrow> state" where
  "handle_client_finally close_raises c st =
     (let st1 = sock_close c st in
      if close_raises \<and> c \<notin> set (released st) then st1
      else if c \<in> set (clients st1) then st1\<lparr>clients := remove1 c (clients st1)\<rparr>
      else st1)"

text \<open>
  The handler resumed on further observations: when the loop leaves, the
  \<^verbatim>\<open>finally\<close> clause runs.
\<close>

definition handler_resume :: "bool \<Rightarrow> sock \<Rightarrow> client_event list \<Rightarrow> state \<Rightarrow> loop_status \<times> state" where
  "handler_resume close_raises c evs st =
     (case client_loop evs st of
        (Exited, st') \<Rightarrow> (Exited, handle_client_finally close_raises c st')
      | (Blocked, st') \<Rightarrow> (Blocked, st'))"

text \<open>
  handle\_client from its start: the socket is appended to the list, then
  \<^verbatim>\<open>settimeout\<close> is called (it raises on a closed socket, which the outer
  \<^verbatim>\<open>except\<close> catches), then the loop runs.
\<close>

definition handle_client :: "bool \<Rightarrow> sock \<Rightarrow> client_event list \<Rightarrow> state \<Rightarrow> loop_status \<times> state" where
  "handle_client close_raises c evs st =
     (let st1 = st\<lparr>clients := clients st @ [c]\<rparr> in
      if c \<in> set (released st1) then (Exited, handle_client_finally close_raises c st1)
      else handler_resume close_raises c evs st1)"

declare client_loop.simps [simp del]

section \<open>The upstream to clients loop (websocket\_forwarder)\<close>

text \<open>
  \<^verbatim>\<open>socket.send\<close> either raises or returns the number of bytes it has accepted, which
  may be less than the length of the message; the source discards the returned number.
\<close>

datatype send_result = SendRaises | SendAccepts nat

text \<open>
  The body of the inner \<^verbatim>\<open>try\<close> for one client: \<^verbatim>\<open>settimeout(0.5)\<close> raises on a
  closed socket; \<^verbatim>\<open>send\<close> raises \<^verbatim>\<open>TypeError\<close> on a \<^verbatim>\<open>str\<close>, and otherwise does
  what the socket decides. The boolean tells whether an exception was raised.
\<close>

definition try_send :: "(sock \<Rightarrow> send_result) \<Rightarrow> message \<Rightarrow> sock \<Rightarrow> state \<Rightarrow> bool \<times> state" where
  "try_send outcome msg c st =
     (let st1 = st\<lparr>send_attempts := send_attempts st @ [(c, msg)]\<rparr> in
      if c \<in> set (released st) then (True, st1)
      else
        (case msg of
           Text _ \<Rightarrow> (True, st1)
         | Binary b \<Rightarrow>
             (case outcome c of
                SendRaises \<Rightarrow> (True, st1)
              | SendAccepts n \<Rightarrow> (False, st1\<lparr>written := written st1 @ [(c, take n b)]\<rparr>))))"

text \<open>
  The handler of a failed write: \<^verbatim>\<open>self.clients.remove(client_socket)\<close>, then
  \<^verbatim>\<open>client_socket.close()\<close>, both inside one \<^verbatim>\<open>try\<close> with a bare
  \<^verbatim>\<open>except\<close>: when the removal raises, the close is skipped.
\<close>

definition prune :: "sock \<Rightarrow> state \<Rightarrow> state" where
  "prune c st =
     (case list_remove c (clients st) of
        Inl _ \<Rightarrow> st
      | Inr cs \<Rightarrow> sock_close c (st\<lparr>clients := cs\<rparr>))"

text \<open>The \<^verbatim>\<open>for\<close> loop over the copy \<^verbatim>\<open>self.clients[:]\<close>, for one message.\<close>

fun fan_out :: "(sock \<Rightarrow> send_result) \<Rightarrow> message \<Rightarrow> sock list \<Rightarrow> state \<Rightarrow> state" where
  "fan_out outcome msg [] st = st"
| "fan_out outcome msg (c # cs) st =
     (case try_send outcome msg c st of
        (True, st') \<Rightarrow> fan_out outcome msg cs (prune c st')
      | (False, st') \<Rightarrow> fan_out outcome msg cs st')"

text \<open>
  One iteration of the forwarder observes what
  \<^verbatim>\<open>asyncio.wait_for(self.websocket.recv(), timeout=2.0)\<close> does: a timeout, a message
  (with what each client socket will do with it), \<^verbatim>\<open>ConnectionClosed\<close>, or another
  exception.
\<close>

datatype ws_event =
  WsTimeout | WsMessage message "sock \<Rightarrow> send_result" | WsClosed | WsError

fun websocket_forwarder :: "ws_event list \<Rightarrow> state \<Rightarrow> loop_status \<times> state" where
  "websocket_forwarder evs st =
     (if \<not> (running st \<and> websocket st \<noteq> None) then (Exited, st)
      else
        (case evs of
           [] \<Rightarrow> (Blocked, st)
         | WsTimeout # rest \<Rightarrow> websocket_forwarder rest st
         | WsMessage msg outcome # rest \<Rightarrow>
             websocket_forwarder rest (fan_out outcome msg (clients st) st)
         | WsClosed # rest \<Rightarrow> (Exited, st)
         | WsError # rest \<Rightarrow> (Exited, st)))"

declare websocket_forwarder.simps [simp del]

text \<open>
  Whether the write of a message to a client raises, and the bytes the client socket
  accepts when it does not, read off \<open>try_send\<close>.
\<close>

definition send_fails :: "(sock \<Rightarrow> send_result) \<Rightarrow> message \<Rightarrow> state \<Rightarrow> sock \<Rightarrow> bool" where
  "send_fails outcome msg st c \<longleftrightarrow> fst (try_send outcome msg c st)"

definition accepted :: "(sock \<Rightarrow> send_result) \<Rightarrow> message \<Rightarrow> sock \<Rightarrow> bytes" where
  "accepted outcome msg c =
     (case msg of
        Text _ \<Rightarrow> []
      | Binary b \<Rightarrow> (case outcome c of SendRaises \<Rightarrow> [] | SendAccepts n \<Rightarrow> take n b))"

section \<open>The listener (start\_tcp\_server)\<close>

text \<open>
  One iteration of the accept loop observes what \<^verbatim>\<open>server_socket.accept()\<close> does: a
  timeout, a new connection (a new socket object, for which a handle\_client task is
  created), or another exception.
\<close>

datatype accept_event = AcceptTimeout | AcceptConn | AcceptError

fun accept_loop :: "accept_event list \<Rightarrow> state \<Rightarrow> loop_status \<times> state" where
  "accept_loop evs st =
     (if \<not> running st then (Exited, st)
      else
        (case evs of
           [] \<Rightarrow> (Blocked, st)
         | AcceptTimeout # rest \<Rightarrow> accept_loop rest st
         | AcceptConn # rest \<Rightarrow>
             accept_loop rest
               (st\<lparr>spawned := spawned st @ [next_sock st], next_sock := Suc (next_sock st)\<rparr>)
         | AcceptError # rest \<Rightarrow> (Exited, st)))"

declare accept_loop.simps [simp del]

text \<open>
  The server socket is created and assigned first; when one of \<^verbatim>\<open>setsockopt\<close>,
  \<^verbatim>\<open>bind\<close>, \<^verbatim>\<open>listen\<close>, \<^verbatim>\<open>settimeout\<close> raises (\<open>bind_ok\<close> false) the
  outer \<^verbatim>\<open>except\<close> logs and the function returns.
\<close>

definition start_tcp_server :: "bool \<Rightarrow> accept_event list \<Rightarrow> state \<Rightarrow> loop_status \<times> state" where
  "start_tcp_server bind_ok evs st =
     (let st1 = st\<lparr>server_socket := Some (next_sock st), next_sock := Suc (next_sock st)\<rparr> in
      if bind_ok then accept_loop evs st1 else (Exited, st1))"

text \<open>
  The start of a created handler task: the task leaves the list of the tasks not yet
  started and handle\_client runs.
\<close>

definition start_handler :: "bool \<Rightarrow> sock \<Rightarrow> client_event list \<Rightarrow> state \<Rightarrow> loop_status \<times> state" where
  "start_handler close_raises c evs st =
     handle_client close_raises c evs (st\<lparr>spawned := remove1 c (spawned st)\<rparr>)"

section \<open>Stopping and running the bridge\<close>

text \<open>
  stop\_bridge. Every close has its own \<^verbatim>\<open>try\<close> with a bare \<^verbatim>\<open>except\<close>.
  \<^verbatim>\<open>asyncio.create_task\<close> raises \<^verbatim>\<open>RuntimeError\<close> when no event loop is running
  (\<open>loop_running\<close> false), which is swallowed as well. No attribute is reset to
  \<^verbatim>\<open>None\<close>.
\<close>

definition stop_bridge :: "bool \<Rightarrow> state \<Rightarrow> state" where
  "stop_bridge loop_running st =
     (let st1 = st\<lparr>running := False\<rparr>;
          st2 = (case server_socket st1 of None \<Rightarrow> st1 | Some s \<Rightarrow> sock_close s st1);
          st3 = fold sock_close (clients st2) st2;
          st4 = st3\<lparr>clients := []\<rparr>
      in case websocket st4 of
           None \<Rightarrow> st4
         | Some _ \<Rightarrow>
             if loop_running then st4\<lparr>ws_close_tasks := Suc (ws_close_tasks st4)\<rparr> else st4)"

text \<open>
  connect\_websocket: when the connection succeeds the attribute is set and
  \<^verbatim>\<open>True\<close> is returned; every exception is caught and gives \<^verbatim>\<open>False\<close>.
\<close>

definition connect_websocket :: "bool \<Rightarrow> state \<Rightarrow> bool \<times> state" where
  "connect_websocket connect_ok st =
     (if connect_ok then (True, st\<lparr>websocket := Some ()\<rparr>) else (False, st))"

text \<open>
  run\_bridge: the flag is set, the upstream is connected, and \<^verbatim>\<open>asyncio.gather\<close>
  waits for both coroutines: run\_bridge returns \<^verbatim>\<open>True\<close> only when the accept loop
  and the forwarder have both exited, and it has not returned (\<open>None\<close>) while one of
  them is still running. The two coroutines write disjoint fields of the state and none
  writes the flag, so the model runs them one after the other.
\<close>

definition run_bridge ::
  "bool \<Rightarrow> bool \<Rightarrow> accept_event list \<Rightarrow> ws_event list \<Rightarrow> state \<Rightarrow> bool option \<times> state" where
  "run_bridge connect_ok bind_ok accept_evs ws_evs st =
     (case connect_websocket connect_ok (st\<lparr>running := True\<rparr>) of
        (False, st1) \<Rightarrow> (Some False, st1)
      | (True, st1) \<Rightarrow>
          (let (a, st2) = start_tcp_server bind_ok accept_evs st1;
               (f, st3) = websocket_forwarder ws_evs st2
           in (if a = Exited \<and> f = Exited then Some True else None, st3)))"

section \<open>Runs of the bridge\<close>

text \<open>
  The coroutines of the bridge advance in turns. An operation is one such turn: the
  start of run\_bridge, the accept loop going on, a created handler task starting, a
  blocked handler going on, the forwarder going on, and stop\_bridge. A handler task
  starts only for a socket whose task was created, and goes on only for a socket that
  is registered. A run is a list of operations applied from the state that
  \<^verbatim>\<open>__init__\<close> leaves.
\<close>

datatype op =
  OpRun bool bool "accept_event list" "ws_event list"
| OpAccept "accept_event list"
| OpStart bool sock "client_event list"
| OpResume bool sock "client_event list"
| OpForward "ws_event list"
| OpStop bool

fun apply_op :: "op \<Rightarrow> state \<Rightarrow> state" where
  "apply_op (OpRun connect_ok bind_ok accept_evs ws_evs) st =
     snd (run_bridge connect_ok bind_ok accept_evs ws_evs st)"
| "apply_op (OpAccept evs) st = snd (accept_loop evs st)"
| "apply_op (OpStart close_raises c evs) st =
     (if c \<in> set (spawned st) then snd (start_handler close_raises c evs st) else st)"
| "apply_op (OpResume close_raises c evs) st =
     (if c \<in> set (clients st) then snd (handler_resume close_raises c evs st) else st)"
| "apply_op (OpForward evs) st = snd (websocket_forwarder evs st)"
| "apply_op (OpStop loop_running) st = stop_bridge loop_running st"

fun run_ops :: "op list \<Rightarrow> state \<Rightarrow> state" where
  "run_ops [] st = st"
| "run_ops (x # xs) st = run_ops xs (apply_op x st)"

text \<open>
  The invariant behind the absence of duplicates: the registered sockets and the sockets
  with a created, not yet started task are pairwise different, and all are older than
  the next socket to be created.
\<close>

definition clients_inv :: "state \<Rightarrow> bool" where
  "clients_inv st \<longleftrightarrow>
     distinct (clients st @ spawned st) \<and>
     list_all (\<lambda>c. c < next_sock st) (clients st @ spawned st)"

text \<open>
  Whether the write to a client raises, given the set of the closed sockets: used to
  follow the fan-out through its iterations.
\<close>

definition raises_on :: "(sock \<Rightarrow> send_result) \<Rightarrow> message \<Rightarrow> sock set \<Rightarrow> sock \<Rightarrow> bool" where
  "raises_on outcome msg R c \<longleftrightarrow>
     c \<in> R \<or> (case msg of Text _ \<Rightarrow> True | Binary b \<Rightarrow> outcome c = SendRaises)"

text \<open>The bytes a client socket has accepted, in the order of the writes.\<close>

definition delivered :: "sock \<Rightarrow> state \<Rightarrow> bytes" where
  "delivered c st = concat (map snd (filter (\<lambda>w. fst w = c) (written st)))"

text \<open>
  What an observation of the read loop hands to the upstream, and whether the loop goes
  on after it.
\<close>

fun forwarded :: "client_event \<Rightarrow> bytes list" where
  "forwarded (ClientData d WsSendOk) = [d]"
| "forwarded _ = []"

fun goes_on :: "client_event \<Rightarrow> bool" where
  "goes_on ClientTimeout = True"
| "goes_on ClientError = False"
| "goes_on (ClientData d sent) = (d \<noteq> [] \<and> sent \<noteq> WsSendError)"

section \<open>Properties of the URL discovery and of main\<close>

lemma str_contains_set: "str_contains pat s \<Longrightarrow> set pat \<subseteq> set s"
proof (induction s)
  case Nil
  then show ?case by simp
next
  case (Cons c cs)
  from Cons.prems have "prefix pat (c # cs) \<or> str_contains pat cs" by simp
  then show ?case
  proof
    assume "prefix pat (c # cs)"
    then show ?thesis by (rule set_mono_prefix)
  next
    assume "str_contains pat cs"
    then have "set pat \<subseteq> set cs" by (rule Cons.IH)
    then show ?thesis by auto
  qed
qed

lemma line_matches_has_eq: "line_matches line \<Longrightarrow> CHR ''='' \<in> set line"
  unfolding line_matches_def using str_contains_set by fastforce

lemma split_eq_snd_Some:
  "CHR ''='' \<in> set line \<Longrightarrow>
   \<exists>pre rest. line = pre @ CHR ''='' # rest \<and> CHR ''='' \<notin> set pre \<and> split_eq_snd line = Some rest"
proof -
  assume a: "CHR ''='' \<in> set line"
  let ?p = "\<lambda>c. c \<noteq> CHR ''=''"
  from a have ne: "dropWhile ?p line \<noteq> []" by (simp add: dropWhile_eq_Nil_conv)
  then obtain x rest where d: "dropWhile ?p line = x # rest" by (cases "dropWhile ?p line") auto
  have "x = CHR ''=''" using hd_dropWhile[OF ne] d by simp
  with d have d': "dropWhile ?p line = CHR ''='' # rest" by simp
  have "line = takeWhile ?p line @ CHR ''='' # rest" using takeWhile_dropWhile_id[of ?p line] d' by simp
  moreover have "CHR ''='' \<notin> set (takeWhile ?p line)" using set_takeWhileD by fastforce
  moreover have "split_eq_snd line = Some rest" by (simp add: split_eq_snd_def d')
  ultimately show ?thesis by blast
qed

lemma scan_lines_find:
  "scan_lines cur ls =
     (case find line_matches ls of
        None \<Rightarrow> Inr cur
      | Some line \<Rightarrow> (case line_value line of None \<Rightarrow> Inl () | Some v \<Rightarrow> Inr (Some v)))"
  by (induction ls) auto

text \<open>
  The no-break space and the next-line character around a value are stripped, as
  \<^verbatim>\<open>str.strip()\<close> does.
\<close>

lemma discover_url_strips_wide_space:
  "fst (discover_url None (FileLines [''publicAdbUrl='' @ [CHR 0xA0] @ ''wss://h'' @ [CHR 0x85, CHR 0x0A]]))
     = Inr (Some ''wss://h'')"
  by (simp add: discover_url_def line_matches_def line_value_def split_eq_snd_def strip_def
      strip_quote_def strip_chars_def is_space_def)

text \<open>
  Claim C4. When the environment gives no URL (the variable is unset, or empty) and the
  connection file is missing or has no line containing one of the two keys, main returns
  exit code 1 and no bridge is run, so no network connection is attempted.
\<close>

theorem main_missing_url_exit_1:
  assumes "\<not> truthy env"
    and "file = FileNotFound \<or> (\<exists>ls. file = FileLines ls \<and> (\<forall>l \<in> set ls. \<not> line_matches l))"
  shows "exit_code (main env file run) = Some 1 \<and>
         connect_attempts (main env file run) = []"
proof -
  have "fst (discover_url env file) = Inr env"
  proof (cases "file")
    case (FileLines ls)
    with assms(2) have "find line_matches ls = None" by (simp add: find_None_iff)
    with FileLines assms(1) show ?thesis by (simp add: discover_url_def scan_lines_find)
  qed (use assms in \<open>auto simp: discover_url_def\<close>)
  then show ?thesis using assms(1)
    by (cases env; cases "discover_url env file") (auto simp: main_def)
qed

theorem main_missing_url_exit_1_witness:
  "\<not> truthy None \<and> \<not> line_matches ''A=1'' \<and> \<not> line_matches ''B=2'' \<and>
   exit_code (main None (FileLines [''A=1'', ''B=2'']) (\<lambda>_. RunReturned True)) = Some 1 \<and>
   connect_attempts (main None (FileLines [''A=1'', ''B=2'']) (\<lambda>_. RunReturned True)) = []"
proof -
  have h1: "\<not> truthy None" by simp
  have h2: "\<not> line_matches ''A=1''" "\<not> line_matches ''B=2''"
    by (simp_all add: line_matches_def)
  from h2 have h3: "FileLines [''A=1'', ''B=2''] = FileNotFound \<or>
      (\<exists>ls. FileLines [''A=1'', ''B=2''] = FileLines ls \<and> (\<forall>l \<in> set ls. \<not> line_matches l))"
    by simp
  show ?thesis
    using h1 h2 main_missing_url_exit_1 [OF h1 h3, of "\<lambda>_. RunReturned True"] by blast
qed


text \<open>
  Claim C5. When the discovered URL does not start with \<^verbatim>\<open>wss://\<close>, main returns exit
  code 1 and no bridge is run, so no connection is attempted.
\<close>

theorem main_rejects_non_wss:
  assumes "fst (discover_url env file) = Inr (Some url)"
    and "\<not> prefix ''wss://'' url"
  shows "exit_code (main env file run) = Some 1 \<and>
         connect_attempts (main env file run) = []"
  using assms by (cases "discover_url env file") (simp add: main_def)

theorem main_rejects_non_wss_witness:
  "fst (discover_url (Some ''ws://host/adb'') FileNotFound) = Inr (Some ''ws://host/adb'') \<and>
   \<not> prefix ''wss://'' ''ws://host/adb'' \<and>
   exit_code (main (Some ''ws://host/adb'') FileNotFound (\<lambda>_. RunReturned True)) = Some 1 \<and>
   connect_attempts (main (Some ''ws://host/adb'') FileNotFound (\<lambda>_. RunReturned True)) = []"
proof -
  have h1: "fst (discover_url (Some ''ws://host/adb'') FileNotFound) = Inr (Some ''ws://host/adb'')"
    by (simp add: discover_url_def)
  have h2: "\<not> prefix ''wss://'' ''ws://host/adb''" by simp
  show ?thesis using h1 h2 main_rejects_non_wss [OF h1 h2, of "\<lambda>_. RunReturned True"] by blast
qed


text \<open>
  Claim C7, amended in one point: the file is parsed when the environment variable is
  absent or empty (exactly when its value is not truthy). The rest is as the claim says:
  the environment is consulted first; when the file is read, the first line matching
  either key decides (\<open>find line_matches\<close>), the line is split at its first
  \<^verbatim>\<open>=\<close> and the value is taken from what follows (main strips surrounding
  whitespace and then surrounding double quotes from it). Without a matching line, and
  with a missing file, the value stays what the environment gave.
\<close>

theorem discover_url_order:
  "(truthy env \<longrightarrow> discover_url env file = (Inr env, False)) \<and>
   (\<not> truthy env \<longrightarrow>
      snd (discover_url env file) \<and>
      (file = FileNotFound \<longrightarrow> fst (discover_url env file) = Inr env) \<and>
      (\<forall>ls. file = FileLines ls \<longrightarrow>
         (case find line_matches ls of
            None \<Rightarrow> fst (discover_url env file) = Inr env
          | Some line \<Rightarrow>
              (\<exists>pre rest. line = pre @ CHR ''='' # rest \<and> CHR ''='' \<notin> set pre \<and>
                 fst (discover_url env file) = Inr (Some (strip_quote (strip rest)))))))"
proof -
  have "\<exists>pre rest. line = pre @ CHR ''='' # rest \<and> CHR ''='' \<notin> set pre \<and>
          fst (discover_url env (FileLines ls)) = Inr (Some (strip_quote (strip rest)))"
    if ne: "\<not> truthy env" and f: "find line_matches ls = Some line" for ls line
  proof -
    from f have "line_matches line" by (auto simp: find_Some_iff)
    then obtain pre rest where l: "line = pre @ CHR ''='' # rest" "CHR ''='' \<notin> set pre"
      and sp: "split_eq_snd line = Some rest"
      using split_eq_snd_Some[OF line_matches_has_eq] by blast
    from ne f sp have "fst (discover_url env (FileLines ls)) = Inr (Some (strip_quote (strip rest)))"
      by (simp add: discover_url_def scan_lines_find line_value_def)
    with l show ?thesis by blast
  qed
  then show ?thesis
    by (auto simp: discover_url_def scan_lines_find split: option.splits file_read.splits)
qed

theorem discover_url_order_witness:
  "\<not> truthy None \<and>
   fst (discover_url None (FileLines [''A=1'', ''publicAdbUrl=wss://h=x'', ''GENYMOTION_ADB_URL=wss://g'']))
     = Inr (Some ''wss://h=x'')"
  using discover_url_order [of None "FileLines [''A=1'', ''publicAdbUrl=wss://h=x'', ''GENYMOTION_ADB_URL=wss://g'']"]
  by (simp add: discover_url_def line_matches_def line_value_def split_eq_snd_def strip_def
      strip_quote_def strip_chars_def is_space_def)

text \<open>
  Claim C7 as stated says the file is parsed only if the variable is absent. With the
  variable present and empty the file is parsed all the same, and its value is taken.
\<close>

theorem discover_url_empty_env_counterexample:
  "Some '''' \<noteq> (None :: string option) \<and>
   discover_url (Some '''') (FileLines [''publicAdbUrl=wss://h'']) = (Inr (Some ''wss://h''), True)"
  by (simp add: discover_url_def line_matches_def line_value_def split_eq_snd_def strip_def
      strip_quote_def strip_chars_def is_space_def)


section \<open>Properties of stop\_bridge\<close>

lemma sock_close_fields [simp]:
  "clients (sock_close c st) = clients st"
  "running (sock_close c st) = running st"
  "server_socket (sock_close c st) = server_socket st"
  "websocket (sock_close c st) = websocket st"
  "close_calls (sock_close c st) = close_calls st @ [c]"
  "send_attempts (sock_close c st) = send_attempts st"
  "written (sock_close c st) = written st"
  "upstream (sock_close c st) = upstream st"
  "spawned (sock_close c st) = spawned st"
  "next_sock (sock_close c st) = next_sock st"
  "set (released (sock_close c st)) = insert c (set (released st))"
  by (auto simp: sock_close_def)

lemma fold_sock_close_fields [simp]:
  "clients (fold sock_close cs st) = clients st"
  "running (fold sock_close cs st) = running st"
  "server_socket (fold sock_close cs st) = server_socket st"
  "websocket (fold sock_close cs st) = websocket st"
  "close_calls (fold sock_close cs st) = close_calls st @ cs"
  "send_attempts (fold sock_close cs st) = send_attempts st"
  "written (fold sock_close cs st) = written st"
  "upstream (fold sock_close cs st) = upstream st"
  "spawned (fold sock_close cs st) = spawned st"
  "next_sock (fold sock_close cs st) = next_sock st"
  by (induction cs arbitrary: st) simp_all

lemma set_released_fold_close:
  "set (released (fold sock_close cs st)) = set (released st) \<union> set cs"
  by (induction cs arbitrary: st) auto

lemma distinct_released_close:
  "distinct (released st) \<Longrightarrow> distinct (released (sock_close c st))"
  by (simp add: sock_close_def)

lemma distinct_released_fold_close:
  "distinct (released st) \<Longrightarrow> distinct (released (fold sock_close cs st))"
  by (induction cs arbitrary: st) (simp_all add: distinct_released_close)

text \<open>
  Claim C10. After stop\_bridge the list of clients is empty and the running flag is
  false, and \<^verbatim>\<open>close()\<close> has been called on every client that was registered, which
  leaves each of them closed.
\<close>

theorem stop_bridge_clears:
  "clients (stop_bridge l st) = [] \<and> \<not> running (stop_bridge l st) \<and>
   set (clients st) \<subseteq> set (close_calls (stop_bridge l st)) \<and>
   set (clients st) \<subseteq> set (released (stop_bridge l st))"
  by (auto simp: stop_bridge_def Let_def set_released_fold_close split: option.splits)

lemma stop_bridge_on_stopped:
  assumes "clients s = []" "\<not> running s" "\<And>x. server_socket s = Some x \<Longrightarrow> x \<in> set (released s)"
  shows "stop_bridge l s =
           s\<lparr>close_calls := close_calls s @ (case server_socket s of None \<Rightarrow> [] | Some x \<Rightarrow> [x]),
             ws_close_tasks := ws_close_tasks s + (if websocket s \<noteq> None \<and> l then 1 else 0)\<rparr>"
  using assms by (cases s) (auto simp: stop_bridge_def sock_close_def Let_def split: option.splits)

text \<open>
  Claim C6. stop\_bridge is a total function of the state: every close sits in its own
  \<^verbatim>\<open>try\<close>, so no call raises. A second call changes nothing but the two logs of
  calls made: it calls \<^verbatim>\<open>close()\<close> on the listener again, which does nothing on
  the closed socket, and it creates another task for \<^verbatim>\<open>websocket.close()\<close>. The
  attributes of the bridge and the list of released descriptors are those left by the
  first call, and no descriptor is released twice.
\<close>

theorem stop_bridge_twice:
  "stop_bridge l2 (stop_bridge l1 st) =
     (stop_bridge l1 st)
       \<lparr>close_calls := close_calls (stop_bridge l1 st) @
           (case server_socket st of None \<Rightarrow> [] | Some s \<Rightarrow> [s]),
        ws_close_tasks := ws_close_tasks (stop_bridge l1 st) +
           (if websocket st \<noteq> None \<and> l2 then 1 else 0)\<rparr> \<and>
   (distinct (released st) \<longrightarrow> distinct (released (stop_bridge l2 (stop_bridge l1 st))))"
proof -
  let ?s1 = "stop_bridge l1 st"
  have f: "clients ?s1 = []" "\<not> running ?s1" "server_socket ?s1 = server_socket st"
    "websocket ?s1 = websocket st"
    by (auto simp: stop_bridge_def Let_def split: option.splits)
  have r: "\<And>s. server_socket st = Some s \<Longrightarrow> s \<in> set (released ?s1)"
    by (auto simp: stop_bridge_def Let_def set_released_fold_close split: option.splits)
  have d: "distinct (released ?s1)" if "distinct (released st)"
    using that
    by (auto simp: stop_bridge_def Let_def split: option.splits
        intro!: distinct_released_fold_close distinct_released_close)
  have e: "stop_bridge l2 ?s1 =
           ?s1\<lparr>close_calls := close_calls ?s1 @ (case server_socket st of None \<Rightarrow> [] | Some s \<Rightarrow> [s]),
              ws_close_tasks := ws_close_tasks ?s1 + (if websocket st \<noteq> None \<and> l2 then 1 else 0)\<rparr>"
    using stop_bridge_on_stopped [of ?s1 l2] f r by simp
  show ?thesis using d by (simp add: e)
qed

theorem stop_bridge_twice_witness:
  "distinct (released ((init ''wss://h'' 5555)
      \<lparr>server_socket := Some 0, websocket := Some (), running := True,
       clients := [1, 2], next_sock := 3\<rparr>)) \<and>
   released (stop_bridge True (stop_bridge True ((init ''wss://h'' 5555)
      \<lparr>server_socket := Some 0, websocket := Some (), running := True,
       clients := [1, 2], next_sock := 3\<rparr>))) = [0, 1, 2]"
  using stop_bridge_twice [of True True "(init ''wss://h'' 5555)
      \<lparr>server_socket := Some 0, websocket := Some (), running := True,
       clients := [1, 2], next_sock := 3\<rparr>"]
  by (simp add: init_def stop_bridge_def sock_close_def)

section \<open>Properties of the fan-out\<close>

lemma send_fails_iff:
  "send_fails outcome msg st c \<longleftrightarrow> raises_on outcome msg (set (released st)) c"
  by (auto simp: send_fails_def try_send_def raises_on_def Let_def
      split: message.splits send_result.splits)

lemma try_send_fields [simp]:
  "clients (snd (try_send outcome msg c st)) = clients st"
  "released (snd (try_send outcome msg c st)) = released st"
  "close_calls (snd (try_send outcome msg c st)) = close_calls st"
  "running (snd (try_send outcome msg c st)) = running st"
  "websocket (snd (try_send outcome msg c st)) = websocket st"
  "server_socket (snd (try_send outcome msg c st)) = server_socket st"
  "upstream (snd (try_send outcome msg c st)) = upstream st"
  "spawned (snd (try_send outcome msg c st)) = spawned st"
  "next_sock (snd (try_send outcome msg c st)) = next_sock st"
  "send_attempts (snd (try_send outcome msg c st)) = send_attempts st @ [(c, msg)]"
  by (auto simp: try_send_def Let_def split: message.splits send_result.splits)

lemma try_send_written:
  "written (snd (try_send outcome msg c st)) =
     written st @ (if send_fails outcome msg st c then [] else [(c, accepted outcome msg c)])"
  by (auto simp: send_fails_def accepted_def try_send_def Let_def
      split: message.splits send_result.splits)

lemma prune_fields [simp]:
  "clients (prune c st) = remove1 c (clients st)"
  "running (prune c st) = running st"
  "websocket (prune c st) = websocket st"
  "server_socket (prune c st) = server_socket st"
  "upstream (prune c st) = upstream st"
  "spawned (prune c st) = spawned st"
  "next_sock (prune c st) = next_sock st"
  "send_attempts (prune c st) = send_attempts st"
  "written (prune c st) = written st"
  "close_calls (prune c st) = close_calls st @ (if c \<in> set (clients st) then [c] else [])"
  "set (released (prune c st)) = set (released st) \<union> (if c \<in> set (clients st) then {c} else {})"
  by (auto simp: prune_def list_remove_def remove1_idem)

lemma fan_out_Cons:
  "fan_out outcome msg (c # cs) st =
     fan_out outcome msg cs
       (if send_fails outcome msg st c then prune c (snd (try_send outcome msg c st))
        else snd (try_send outcome msg c st))"
  by (cases "try_send outcome msg c st") (auto simp: send_fails_def)

lemma fan_out_general:
  assumes "distinct cs" "distinct (clients st)" "set cs \<subseteq> set (clients st)"
    and "\<And>c. c \<in> set cs \<Longrightarrow> (c \<in> set (released st) \<longleftrightarrow> c \<in> R)"
  shows "clients (fan_out outcome msg cs st) =
           filter (\<lambda>c. \<not> (c \<in> set cs \<and> raises_on outcome msg R c)) (clients st) \<and>
         close_calls (fan_out outcome msg cs st) =
           close_calls st @ filter (raises_on outcome msg R) cs \<and>
         set (released (fan_out outcome msg cs st)) =
           set (released st) \<union> {c \<in> set cs. raises_on outcome msg R c} \<and>
         send_attempts (fan_out outcome msg cs st) =
           send_attempts st @ map (\<lambda>c. (c, msg)) cs \<and>
         written (fan_out outcome msg cs st) =
           written st @ map (\<lambda>c. (c, accepted outcome msg c))
                          (filter (\<lambda>c. \<not> raises_on outcome msg R c) cs)"
  using assms
proof (induction cs arbitrary: st)
  case Nil
  then show ?case by simp
next
  case (Cons c cs)
  let ?F = "raises_on outcome msg R"
  let ?t = "snd (try_send outcome msg c st)"
  have fc: "send_fails outcome msg st c \<longleftrightarrow> ?F c"
    using Cons.prems(4)[of c] by (simp add: send_fails_iff raises_on_def)
  have cin: "c \<in> set (clients st)" and cnot: "c \<notin> set cs" and dcs: "distinct cs"
    and sub: "set cs \<subseteq> set (clients st)"
    using Cons.prems by auto
  show ?case
  proof (cases "?F c")
    case True
    let ?s = "prune c ?t"
    have step: "fan_out outcome msg (c # cs) st = fan_out outcome msg cs ?s"
      unfolding fan_out_Cons using True fc by simp
    have ih: "clients (fan_out outcome msg cs ?s) =
           filter (\<lambda>c. \<not> (c \<in> set cs \<and> ?F c)) (clients ?s) \<and>
         close_calls (fan_out outcome msg cs ?s) = close_calls ?s @ filter ?F cs \<and>
         set (released (fan_out outcome msg cs ?s)) =
           set (released ?s) \<union> {c \<in> set cs. ?F c} \<and>
         send_attempts (fan_out outcome msg cs ?s) =
           send_attempts ?s @ map (\<lambda>c. (c, msg)) cs \<and>
         written (fan_out outcome msg cs ?s) =
           written ?s @ map (\<lambda>c. (c, accepted outcome msg c)) (filter (\<lambda>c. \<not> ?F c) cs)"
    proof (rule Cons.IH)
      show "distinct cs" by (rule dcs)
      show "distinct (clients ?s)" using Cons.prems(2) by simp
      show "set cs \<subseteq> set (clients ?s)" using sub cnot Cons.prems(2) by auto
      show "\<And>x. x \<in> set cs \<Longrightarrow> (x \<in> set (released ?s)) = (x \<in> R)"
        using Cons.prems(4) cnot by auto
    qed
    have cl: "filter (\<lambda>x. \<not> (x \<in> set cs \<and> ?F x)) (remove1 c (clients st)) =
              filter (\<lambda>x. \<not> (x \<in> set (c # cs) \<and> ?F x)) (clients st)"
      using True Cons.prems(2) by (auto simp: distinct_remove1_removeAll removeAll_filter_not_eq intro: filter_cong)
    show ?thesis
      unfolding step using ih True cin cl fc by (auto simp: try_send_written)
  next
    case False
    have step: "fan_out outcome msg (c # cs) st = fan_out outcome msg cs ?t"
      unfolding fan_out_Cons using False fc by simp
    have ih: "clients (fan_out outcome msg cs ?t) =
           filter (\<lambda>c. \<not> (c \<in> set cs \<and> ?F c)) (clients ?t) \<and>
         close_calls (fan_out outcome msg cs ?t) = close_calls ?t @ filter ?F cs \<and>
         set (released (fan_out outcome msg cs ?t)) =
           set (released ?t) \<union> {c \<in> set cs. ?F c} \<and>
         send_attempts (fan_out outcome msg cs ?t) =
           send_attempts ?t @ map (\<lambda>c. (c, msg)) cs \<and>
         written (fan_out outcome msg cs ?t) =
           written ?t @ map (\<lambda>c. (c, accepted outcome msg c)) (filter (\<lambda>c. \<not> ?F c) cs)"
    proof (rule Cons.IH)
      show "distinct cs" by (rule dcs)
      show "distinct (clients ?t)" using Cons.prems(2) by simp
      show "set cs \<subseteq> set (clients ?t)" using sub by simp
      show "\<And>x. x \<in> set cs \<Longrightarrow> (x \<in> set (released ?t)) = (x \<in> R)"
        using Cons.prems(4) by auto
    qed
    have cl: "filter (\<lambda>x. \<not> (x \<in> set cs \<and> ?F x)) (clients st) =
              filter (\<lambda>x. \<not> (x \<in> set (c # cs) \<and> ?F x)) (clients st)"
      using False by (auto intro: filter_cong)
    show ?thesis
      unfolding step using ih False cl fc by (auto simp: try_send_written)
  qed
qed

text \<open>
  Claim C3. One message is fanned out over the copy of a duplicate-free list of clients.
  The clients left are exactly those whose write did not raise, in their order;
  \<^verbatim>\<open>close()\<close> is called on exactly the clients whose write raised, which leaves them
  closed; a write is attempted for every client of the copy, in order, whatever happened
  to the clients before it; and every client whose write did not raise has accepted its
  bytes.
\<close>

theorem fan_out_prunes_failed_only:
  assumes "distinct (clients st)"
  shows "clients (fan_out outcome msg (clients st) st) =
           filter (\<lambda>c. \<not> send_fails outcome msg st c) (clients st) \<and>
         close_calls (fan_out outcome msg (clients st) st) =
           close_calls st @ filter (send_fails outcome msg st) (clients st) \<and>
         set (released (fan_out outcome msg (clients st) st)) =
           set (released st) \<union> {c \<in> set (clients st). send_fails outcome msg st c} \<and>
         send_attempts (fan_out outcome msg (clients st) st) =
           send_attempts st @ map (\<lambda>c. (c, msg)) (clients st) \<and>
         written (fan_out outcome msg (clients st) st) =
           written st @ map (\<lambda>c. (c, accepted outcome msg c))
                          (filter (\<lambda>c. \<not> send_fails outcome msg st c) (clients st))"
proof -
  have g: "send_fails outcome msg st = raises_on outcome msg (set (released st))"
    by (rule ext) (simp add: send_fails_iff)
  have "filter (\<lambda>c. \<not> (c \<in> set (clients st) \<and> raises_on outcome msg (set (released st)) c)) (clients st)
        = filter (\<lambda>c. \<not> raises_on outcome msg (set (released st)) c) (clients st)"
    by (auto intro: filter_cong)
  then show ?thesis
    using fan_out_general [of "clients st" st "set (released st)" outcome msg] assms
    by (simp add: g)
qed


theorem fan_out_prunes_failed_only_witness:
  "distinct (clients ((init ''wss://h'' 5555)
      \<lparr>websocket := Some (), running := True, clients := [1, 2, 3], next_sock := 4\<rparr>)) \<and>
   clients (fan_out (\<lambda>c. if c = 2 then SendRaises else SendAccepts 1) (Binary [7])
      [1, 2, 3]
      ((init ''wss://h'' 5555)
        \<lparr>websocket := Some (), running := True, clients := [1, 2, 3], next_sock := 4\<rparr>))
     = [1, 3]"
  using fan_out_prunes_failed_only [of "(init ''wss://h'' 5555)
      \<lparr>websocket := Some (), running := True, clients := [1, 2, 3], next_sock := 4\<rparr>"
      "\<lambda>c. if c = 2 then SendRaises else SendAccepts 1" "Binary [7]"]
  by (simp add: init_def send_fails_def try_send_def)

section \<open>The invariant of the list of clients\<close>

lemma client_loop_upstream_only: "\<exists>u. snd (client_loop evs st) = st\<lparr>upstream := u\<rparr>"
proof (induction evs arbitrary: st)
  case Nil
  have "\<exists>u. st = st\<lparr>upstream := u\<rparr>"
    by (rule exI [of _ "upstream st"]) simp
  then show ?case by (subst client_loop.simps) simp
next
  case (Cons e evs)
  have same: "\<exists>u. st = st\<lparr>upstream := u\<rparr>"
    by (rule exI [of _ "upstream st"]) simp
  have rec: "\<exists>u. snd (client_loop evs st) = st\<lparr>upstream := u\<rparr>" by (rule Cons.IH)
  have rec': "\<exists>u. snd (client_loop evs (st\<lparr>upstream := v\<rparr>)) = st\<lparr>upstream := u\<rparr>" for v
    using Cons.IH [of "st\<lparr>upstream := v\<rparr>"] by simp
  show ?case
  proof (cases e)
    case ClientTimeout
    then show ?thesis using same rec by (subst client_loop.simps) simp
  next
    case ClientError
    then show ?thesis using same by (subst client_loop.simps) simp
  next
    case (ClientData d sent)
    then show ?thesis
      using same rec rec' [of "upstream st @ [d]"]
      by (subst client_loop.simps) (cases sent; simp)
  qed
qed

lemma client_loop_frame:
  "clients (snd (client_loop evs st)) = clients st \<and>
   spawned (snd (client_loop evs st)) = spawned st \<and>
   next_sock (snd (client_loop evs st)) = next_sock st \<and>
   released (snd (client_loop evs st)) = released st \<and>
   close_calls (snd (client_loop evs st)) = close_calls st \<and>
   running (snd (client_loop evs st)) = running st \<and>
   websocket (snd (client_loop evs st)) = websocket st \<and>
   written (snd (client_loop evs st)) = written st"
proof -
  obtain u where "snd (client_loop evs st) = st\<lparr>upstream := u\<rparr>"
    using client_loop_upstream_only by blast
  then show ?thesis by simp
qed

lemma handle_client_finally_frame [simp]:
  "spawned (handle_client_finally cr c st) = spawned st"
  "next_sock (handle_client_finally cr c st) = next_sock st"
  "running (handle_client_finally cr c st) = running st"
  by (auto simp: handle_client_finally_def Let_def)

lemma handle_client_finally_clients:
  "clients (handle_client_finally cr c st) = clients st \<or>
   clients (handle_client_finally cr c st) = remove1 c (clients st)"
  by (auto simp: handle_client_finally_def Let_def)

lemma clients_inv_shrink:
  assumes "clients_inv st" "spawned st' = spawned st" "next_sock st' = next_sock st"
    and "clients st' = clients st \<or> clients st' = remove1 c (clients st)"
  shows "clients_inv st'"
  using assms by (auto simp: clients_inv_def list_all_iff dest: notin_set_remove1)

lemma handler_resume_inv:
  assumes "clients_inv st"
  shows "clients_inv (snd (handler_resume cr c evs st))"
proof (cases "client_loop evs st")
  case (Pair status st')
  have fr: "clients st' = clients st" "spawned st' = spawned st" "next_sock st' = next_sock st"
    using client_loop_frame [of evs st] Pair by simp_all
  then have i: "clients_inv st'" using assms by (simp add: clients_inv_def)
  show ?thesis
  proof (cases status)
    case Exited
    have "clients_inv (handle_client_finally cr c st')"
      by (rule clients_inv_shrink [OF i _ _ handle_client_finally_clients]) simp_all
    with Pair Exited show ?thesis by (simp add: handler_resume_def)
  next
    case Blocked
    with Pair i show ?thesis by (simp add: handler_resume_def)
  qed
qed

lemma start_handler_inv:
  assumes "clients_inv st" "c \<in> set (spawned st)"
  shows "clients_inv (snd (start_handler cr c evs st))"
proof -
  let ?s1 = "st\<lparr>spawned := remove1 c (spawned st), clients := clients st @ [c]\<rparr>"
  have i1: "clients_inv ?s1"
    using assms by (auto simp: clients_inv_def list_all_iff dest: notin_set_remove1)
  have "clients_inv (handle_client_finally cr c ?s1)"
    by (rule clients_inv_shrink [OF i1 _ _ handle_client_finally_clients]) simp_all
  moreover have "clients_inv (snd (handler_resume cr c evs ?s1))"
    by (rule handler_resume_inv [OF i1])
  ultimately show ?thesis
    by (simp add: start_handler_def handle_client_def Let_def)
qed

lemma fan_out_inv:
  "clients_inv st \<Longrightarrow> clients_inv (fan_out outcome msg cs st)"
proof (induction cs arbitrary: st)
  case Nil
  then show ?case by simp
next
  case (Cons c cs)
  let ?t = "snd (try_send outcome msg c st)"
  have it: "clients_inv ?t" using Cons.prems by (simp add: clients_inv_def)
  have ip: "clients_inv (prune c ?t)"
    by (rule clients_inv_shrink [OF it, of _ c]) simp_all
  show ?case
    unfolding fan_out_Cons using it ip by (auto intro: Cons.IH)
qed

lemma websocket_forwarder_inv:
  "clients_inv st \<Longrightarrow> clients_inv (snd (websocket_forwarder evs st))"
proof (induction evs st rule: websocket_forwarder.induct)
  case (1 evs st)
  show ?case
    by (subst websocket_forwarder.simps)
       (use 1 in \<open>auto split: list.splits ws_event.splits simp: fan_out_inv\<close>)
qed

lemma accept_loop_inv:
  "clients_inv st \<Longrightarrow> clients_inv (snd (accept_loop evs st))"
proof (induction evs st rule: accept_loop.induct)
  case (1 evs st)
  have step: "clients_inv (st\<lparr>spawned := spawned st @ [next_sock st], next_sock := Suc (next_sock st)\<rparr>)"
    using "1.prems" by (auto simp: clients_inv_def list_all_iff less_Suc_eq)
  show ?case
    by (subst accept_loop.simps)
       (use 1 step in \<open>auto split: list.splits accept_event.splits\<close>)
qed

lemma accept_loop_frame:
  "clients (snd (accept_loop evs st)) = clients st \<and>
   running (snd (accept_loop evs st)) = running st \<and>
   websocket (snd (accept_loop evs st)) = websocket st \<and>
   released (snd (accept_loop evs st)) = released st"
proof (induction evs st rule: accept_loop.induct)
  case (1 evs st)
  show ?case
    by (subst (1 2 3 4) accept_loop.simps)
       (use 1 in \<open>auto split: list.splits accept_event.splits\<close>)
qed

lemma start_tcp_server_inv:
  assumes "clients_inv st"
  shows "clients_inv (snd (start_tcp_server bind_ok evs st))"
proof -
  let ?s1 = "st\<lparr>server_socket := Some (next_sock st), next_sock := Suc (next_sock st)\<rparr>"
  have i1: "clients_inv ?s1"
    using assms by (auto simp: clients_inv_def list_all_iff less_Suc_eq)
  then show ?thesis
    by (auto simp: start_tcp_server_def Let_def intro: accept_loop_inv)
qed

lemma run_bridge_inv:
  assumes "clients_inv st"
  shows "clients_inv (snd (run_bridge connect_ok bind_ok accept_evs ws_evs st))"
proof -
  have a: "clients_inv (st\<lparr>running := True\<rparr>)" using assms by (simp add: clients_inv_def)
  have b: "clients_inv (st\<lparr>running := True, websocket := Some ()\<rparr>)"
    using assms by (simp add: clients_inv_def)
  have "clients_inv (snd (websocket_forwarder ws_evs
          (snd (start_tcp_server bind_ok accept_evs (st\<lparr>running := True, websocket := Some ()\<rparr>)))))"
    by (intro websocket_forwarder_inv start_tcp_server_inv b)
  with a show ?thesis
    by (auto simp: run_bridge_def connect_websocket_def Let_def split: prod.splits)
qed

lemma stop_bridge_inv:
  assumes "clients_inv st"
  shows "clients_inv (stop_bridge l st)"
proof -
  have "clients (stop_bridge l st) = []"
    by (auto simp: stop_bridge_def Let_def split: option.splits)
  moreover have "spawned (stop_bridge l st) = spawned st" "next_sock (stop_bridge l st) = next_sock st"
    by (auto simp: stop_bridge_def Let_def split: option.splits)
  ultimately show ?thesis using assms by (simp add: clients_inv_def)
qed

lemma apply_op_inv: "clients_inv st \<Longrightarrow> clients_inv (apply_op x st)"
  by (cases x)
     (simp_all add: run_bridge_inv accept_loop_inv start_handler_inv handler_resume_inv
        websocket_forwarder_inv stop_bridge_inv)

lemma run_ops_inv: "clients_inv st \<Longrightarrow> clients_inv (run_ops xs st)"
  by (induction xs arbitrary: st) (simp_all add: apply_op_inv)

lemma init_inv: "clients_inv (init url port)"
  by (simp add: clients_inv_def init_def)

lemma reachable_distinct: "distinct (clients (run_ops xs (init url port)))"
  using run_ops_inv [OF init_inv, of xs url port] by (simp add: clients_inv_def)

text \<open>
  Claim C8. In every state that a run of the bridge reaches, no socket occurs twice in
  the list of clients. Both removals are total functions of the state, so none raises:
  the fan-out's \<^verbatim>\<open>remove\<close> sits in a \<^verbatim>\<open>try\<close> with a bare \<^verbatim>\<open>except\<close>, the
  handler's is guarded by a membership test. After a removal the socket is absent; a
  second \<^verbatim>\<open>list.remove\<close> would raise \<^verbatim>\<open>ValueError\<close>, which the fan-out swallows
  and the handler avoids, and a second removal by either path leaves the list as it is,
  the fan-out's even the whole state.
\<close>

theorem clients_distinct_removal_idempotent:
  "let st = run_ops xs (init url port) in
     distinct (clients st) \<and>
     c \<notin> set (clients (prune c st)) \<and>
     list_remove c (clients (prune c st)) = Inl () \<and>
     prune c (prune c st) = prune c st \<and>
     c \<notin> set (clients (handle_client_finally False c st)) \<and>
     clients (handle_client_finally cr c (handle_client_finally False c st)) =
       clients (handle_client_finally False c st) \<and>
     clients (handle_client_finally cr c (prune c st)) = clients (prune c st) \<and>
     prune c (handle_client_finally False c st) = handle_client_finally False c st"
proof -
  define st where "st = run_ops xs (init url port)"
  have d: "distinct (clients st)" unfolding st_def by (rule reachable_distinct)
  have absent: "\<And>s. c \<notin> set (clients s) \<Longrightarrow> prune c s = s"
    by (simp add: prune_def list_remove_def)
  have absent': "\<And>s k. c \<notin> set (clients s) \<Longrightarrow> clients (handle_client_finally k c s) = clients s"
    by (simp add: handle_client_finally_def Let_def)
  have p: "c \<notin> set (clients (prune c st))" using d by simp
  have h: "c \<notin> set (clients (handle_client_finally False c st))"
    using d by (auto simp: handle_client_finally_def Let_def)
  show ?thesis
    unfolding st_def [symmetric] Let_def
    using d p h absent [OF p] absent [OF h] absent' [OF p] absent' [OF h]
    by (simp add: list_remove_def)
qed

section \<open>Registration of an accepted client and the fan-out\<close>




section \<open>Forwarding of the bytes\<close>

text \<open>
  From a client to the upstream: the messages handed to \<^verbatim>\<open>websocket.send\<close> are
  chunks read from the client, in order and unchanged, up to the first read that ends the
  loop (an error, an empty read, or a chunk whose send raises an exception that is no
  timeout). A chunk whose send raises a timeout is not among them.
\<close>

lemma client_loop_forwards_chunks:
  assumes "running st" "websocket st \<noteq> None"
  shows "upstream (snd (client_loop evs st)) =
           upstream st @ concat (map forwarded (takeWhile goes_on evs))"
  using assms
proof (induction evs arbitrary: st)
  case Nil
  then show ?case by (simp add: client_loop.simps)
next
  case (Cons e evs)
  show ?case
  proof (cases e)
    case ClientTimeout
    then show ?thesis
      using Cons by (subst client_loop.simps) simp
  next
    case ClientError
    then show ?thesis
      using Cons.prems by (subst client_loop.simps) simp
  next
    case (ClientData d sent)
    show ?thesis
    proof (cases "d = []")
      case True
      then show ?thesis
        using ClientData Cons.prems
        by (subst client_loop.simps) simp
    next
      case False
      let ?s = "st\<lparr>upstream := upstream st @ [d]\<rparr>"
      have ih1: "upstream (snd (client_loop evs ?s)) =
                   upstream ?s @ concat (map forwarded (takeWhile goes_on evs))"
        by (rule Cons.IH) (use Cons.prems in simp_all)
      have ih2: "upstream (snd (client_loop evs st)) =
                   upstream st @ concat (map forwarded (takeWhile goes_on evs))"
        by (rule Cons.IH) (use Cons.prems in simp_all)
      show ?thesis
        using False ClientData Cons.prems ih1 ih2
        by (subst client_loop.simps) (cases sent; simp)
    qed
  qed
qed

text \<open>
  Claim C1 fails from the upstream to a client. \<^verbatim>\<open>socket.send\<close> may accept only a
  part of the message; it then returns the number of bytes accepted and raises nothing.
  The source discards that number and never writes the rest. Here the client accepts two
  bytes of each message: of the six bytes received from the upstream, in two messages,
  it gets four, the third and the fourth are lost, and the client stays registered.
\<close>

theorem fan_out_partial_send_drops_bytes:
  "websocket_forwarder
     [WsMessage (Binary [1, 2, 3, 4]) (\<lambda>c. SendAccepts 2),
      WsMessage (Binary [5, 6]) (\<lambda>c. SendAccepts 2)]
     ((init ''wss://h'' 5555)
        \<lparr>server_socket := Some 0, websocket := Some (), running := True, clients := [1],
         next_sock := 2\<rparr>)
   = (Blocked,
      (init ''wss://h'' 5555)
        \<lparr>server_socket := Some 0, websocket := Some (), running := True, clients := [1],
         next_sock := 2,
         send_attempts := [(1, Binary [1, 2, 3, 4]), (1, Binary [5, 6])],
         written := [(1, [1, 2]), (1, [5, 6])]\<rparr>) \<and>
   delivered 1 (snd (websocket_forwarder
     [WsMessage (Binary [1, 2, 3, 4]) (\<lambda>c. SendAccepts 2),
      WsMessage (Binary [5, 6]) (\<lambda>c. SendAccepts 2)]
     ((init ''wss://h'' 5555)
        \<lparr>server_socket := Some 0, websocket := Some (), running := True, clients := [1],
         next_sock := 2\<rparr>))) = [1, 2, 5, 6]"
  by (simp add: websocket_forwarder.simps init_def try_send_def delivered_def)

section \<open>The upstream closing\<close>



end
